theory Spec2Isabelle
  imports Complex_Main "HOL-Library.Word" "HOL-Library.Monad_Syntax"
begin

section \<open>The Brotli processor of \<^verbatim>\<open>src/brotli.js\<close>\<close>

text \<open>
  The class \<^verbatim>\<open>BrotliProcessor\<close> wraps the two functions \<^verbatim>\<open>compress\<close> and
  \<^verbatim>\<open>decompress\<close> of the npm package \<^verbatim>\<open>brotli\<close>. That package is not part of the
  repository: the codec is a parameter of every function below. A codec call either returns
  bytes or throws; a throw is the value \<open>Inl message\<close>.

  A \<^verbatim>\<open>Uint8Array\<close> is a list of bytes. A JavaScript number that holds a length or an index is
  a \<open>nat\<close> or an \<open>int\<close>; a number that holds a time or a quotient is a \<open>real\<close>, so the
  rounding of IEEE doubles is abstracted away. The \<^verbatim>\<open>async\<close> methods are modelled
  sequentially: nothing else runs between two steps, and the zero-delay timer awaited after
  each chunk is the effect \<open>Yield\<close>.
\<close>

subsection \<open>Data\<close>

type_synonym byte = "8 word"
type_synonym bytes = "byte list"

text \<open>The object literal \<^verbatim>\<open>{mode, quality, lgwin}\<close> passed to \<^verbatim>\<open>brotliCompress\<close>.\<close>

record brotliOptions =
  enc_mode :: int
  enc_quality :: int
  enc_lgwin :: int

type_synonym encoder = "bytes \<Rightarrow> brotliOptions \<Rightarrow> string + bytes"
type_synonym decoder = "bytes \<Rightarrow> string + bytes"

text \<open>
  The caller's \<^verbatim>\<open>options\<close> object. A property that is absent (\<^verbatim>\<open>undefined\<close>) is
  \<open>None\<close>; the destructuring in \<^verbatim>\<open>compressWithProgress\<close> then takes the default.
\<close>

record options =
  opt_quality :: "int option"
  opt_mode :: "int option"
  opt_chunkSize :: "int option"
  opt_lgwin :: "int option"

text \<open>\<^verbatim>\<open>this.performanceMetrics\<close>, and the object \<^verbatim>\<open>getMetrics\<close> returns.\<close>

record metrics =
  compressionTime :: real
  decompressionTime :: real
  originalSize :: nat
  compressedSize :: nat

record metricsSnapshot = metrics +
  compressionRatio :: real

record BrotliProcessor =
  performanceMetrics :: metrics

text \<open>
  The progress callback receives the fraction and the compressed size of the chunk. It is the
  caller's code: \<open>Some message\<close> is a callback that throws.
\<close>

type_synonym callback = "real \<Rightarrow> nat \<Rightarrow> string option"

text \<open>What a call does besides returning, in order.\<close>

datatype effect =
  Encode bytes brotliOptions
| Decode bytes
| Progress real nat
| Yield

subsection \<open>Operations\<close>

definition constructor :: BrotliProcessor where
  "constructor =
     \<lparr>performanceMetrics =
        \<lparr>compressionTime = 0, decompressionTime = 0, originalSize = 0, compressedSize = 0\<rparr>\<rparr>"

text \<open>
  \<^verbatim>\<open>TypedArray.prototype.slice(start, fin)\<close>: a negative index counts from the end, both
  are clamped to the array, and the result is empty when the range is.
\<close>

definition sliceRange :: "int \<Rightarrow> int \<Rightarrow> int \<Rightarrow> int \<times> int" where
  "sliceRange len start fin =
     (let k = (if start < 0 then max (len + start) 0 else min start len);
          final = (if fin < 0 then max (len + fin) 0 else min fin len)
      in (k, final))"

definition slice :: "'a list \<Rightarrow> int \<Rightarrow> int \<Rightarrow> 'a list" where
  "slice xs start fin =
     (case sliceRange (int (length xs)) start fin of
        (k, final) \<Rightarrow> take (nat (final - k)) (drop (nat k) xs))"

text \<open>
  One iteration of the \<^verbatim>\<open>for\<close> loop of \<^verbatim>\<open>streamCompress\<close> at index \<open>i\<close>: the chunk is
  sliced and encoded, and the callback, when there is one, is told the progress. The result is
  the effects of the iteration and the compressed chunk, or the message of the error thrown.
\<close>

definition chunkStep ::
  "encoder \<Rightarrow> callback option \<Rightarrow> bytes \<Rightarrow> brotliOptions \<Rightarrow> int \<Rightarrow> int \<Rightarrow>
   effect list \<times> (string + bytes)"
where
  "chunkStep enc progressCallback data opts chunkSize i =
     (let chunk = slice data i (i + chunkSize) in
      case enc chunk opts of
        Inl e \<Rightarrow> ([Encode chunk opts], Inl e)
      | Inr compressedChunk \<Rightarrow>
          (case progressCallback of
             None \<Rightarrow> ([Encode chunk opts, Yield], Inr compressedChunk)
           | Some f \<Rightarrow>
               (let progress = min (real_of_int (i + chunkSize) / real (length data)) 1 in
                case f progress (length compressedChunk) of
                  Some e \<Rightarrow>
                    ([Encode chunk opts, Progress progress (length compressedChunk)], Inl e)
                | None \<Rightarrow>
                    ([Encode chunk opts, Progress progress (length compressedChunk), Yield],
                     Inr compressedChunk))))"

text \<open>
  The loop itself, from index \<open>i\<close> on, with the chunks pushed and the effects performed so
  far. It stops at the first throw. A run that never ends has the value \<open>None\<close>; that
  needs a chunk size that is not positive. Inside the loop \<open>i\<close> is below the length, so
  the length that divides in the progress fraction is not 0.
\<close>

partial_function (option) streamLoop ::
  "encoder \<Rightarrow> callback option \<Rightarrow> bytes \<Rightarrow> brotliOptions \<Rightarrow> int \<Rightarrow> int \<Rightarrow> bytes list \<Rightarrow>
   effect list \<Rightarrow> (effect list \<times> (string + bytes list)) option"
where
  "streamLoop enc progressCallback data opts chunkSize i chunks tr =
     (if i < int (length data) then
        (case chunkStep enc progressCallback data opts chunkSize i of
           (es, Inl e) \<Rightarrow> Some (tr @ es, Inl e)
         | (es, Inr compressedChunk) \<Rightarrow>
             streamLoop enc progressCallback data opts chunkSize (i + chunkSize)
               (chunks @ [compressedChunk]) (tr @ es))
      else Some (tr, Inr chunks))"

declare streamLoop.simps [code]

text \<open>
  \<^verbatim>\<open>streamCompress\<close>: the loop from index 0, then the chunks copied one after the other
  into one array.
\<close>

definition streamCompress ::
  "encoder \<Rightarrow> bytes \<Rightarrow> int \<Rightarrow> int \<Rightarrow> int \<Rightarrow> int \<Rightarrow> callback option \<Rightarrow>
   (effect list \<times> (string + bytes)) option"
where
  "streamCompress enc data quality mode chunkSize lgwin progressCallback =
     map_option
       (\<lambda>(tr, r). (tr, case r of Inl e \<Rightarrow> Inl e | Inr chunks \<Rightarrow> Inr (concat chunks)))
       (streamLoop enc progressCallback data
          \<lparr>enc_mode = mode, enc_quality = quality, enc_lgwin = lgwin\<rparr> chunkSize 0 [] [])"

text \<open>
  \<^verbatim>\<open>compressWithProgress\<close>. \<open>startTime\<close> and \<open>endTime\<close> are the two readings of
  \<^verbatim>\<open>performance.now()\<close>. The result is the effects, the value returned or the message of the
  error thrown, and the processor afterwards.
\<close>

definition compressWithProgress ::
  "encoder \<Rightarrow> BrotliProcessor \<Rightarrow> bytes \<Rightarrow> options \<Rightarrow> callback option \<Rightarrow> real \<Rightarrow> real \<Rightarrow>
   (effect list \<times> (string + bytes) \<times> BrotliProcessor) option"
where
  "compressWithProgress enc this data options progressCallback startTime endTime =
     (let quality = (case opt_quality options of None \<Rightarrow> 6 | Some q \<Rightarrow> q);
          mode = (case opt_mode options of None \<Rightarrow> 0 | Some m \<Rightarrow> m);
          chunkSize = (case opt_chunkSize options of None \<Rightarrow> 1024 * 1024 | Some c \<Rightarrow> c);
          lgwin = (case opt_lgwin options of None \<Rightarrow> 22 | Some l \<Rightarrow> l)
      in map_option
           (\<lambda>(tr, r).
              case r of
                Inr compressedData \<Rightarrow>
                  (tr, Inr compressedData,
                   this\<lparr>performanceMetrics :=
                     (performanceMetrics this)
                       \<lparr>compressionTime := endTime - startTime,
                        originalSize := length data,
                        compressedSize := length compressedData\<rparr>\<rparr>)
              | Inl message \<Rightarrow> (tr, Inl (''Compression failed: '' @ message), this))
           (if chunkSize \<noteq> 0 \<and> int (length data) > chunkSize then
              streamCompress enc data quality mode chunkSize lgwin progressCallback
            else
              Some ([Encode data \<lparr>enc_mode = mode, enc_quality = quality, enc_lgwin = lgwin\<rparr>],
                    enc data \<lparr>enc_mode = mode, enc_quality = quality, enc_lgwin = lgwin\<rparr>)))"

text \<open>\<^verbatim>\<open>decompress\<close>: one decode of the whole buffer.\<close>

definition decompress ::
  "decoder \<Rightarrow> BrotliProcessor \<Rightarrow> bytes \<Rightarrow> real \<Rightarrow> real \<Rightarrow>
   effect list \<times> (string + bytes) \<times> BrotliProcessor"
where
  "decompress dec this compressedData startTime endTime =
     (case dec compressedData of
        Inr decompressedData \<Rightarrow>
          ([Decode compressedData], Inr decompressedData,
           this\<lparr>performanceMetrics :=
             (performanceMetrics this)\<lparr>decompressionTime := endTime - startTime\<rparr>\<rparr>)
      | Inl message \<Rightarrow>
          ([Decode compressedData], Inl (''Decompression failed: '' @ message), this))"

text \<open>
  \<^verbatim>\<open>getMetrics\<close>: the metrics and the ratio. \<^verbatim>\<open>compressedSize || 1\<close> is 1 when the size
  is 0.
\<close>

definition getMetrics :: "BrotliProcessor \<Rightarrow> metricsSnapshot" where
  "getMetrics this =
     metrics.extend (performanceMetrics this)
       \<lparr>compressionRatio =
          real (originalSize (performanceMetrics this)) /
          real (if compressedSize (performanceMetrics this) = 0 then 1
                else compressedSize (performanceMetrics this))\<rparr>"

subsection \<open>The ranges the loop slices\<close>

text \<open>
  The header of the loop and its call \<^verbatim>\<open>data.slice(i, i + chunkSize)\<close>, without the codec: the
  index ranges of the input that the iterations from index \<open>i\<close> on take as chunks. \<open>len\<close> is
  \<^verbatim>\<open>data.length\<close>.
\<close>

partial_function (option) chunkRanges :: "int \<Rightarrow> int \<Rightarrow> int \<Rightarrow> (int \<times> int) list option" where
  "chunkRanges len chunkSize i =
     (if i < len then
        do { rs \<leftarrow> chunkRanges len chunkSize (i + chunkSize);
             Some (sliceRange len i (i + chunkSize) # rs) }
      else Some [])"

declare chunkRanges.simps [code]

subsection \<open>Reading the options and the effects\<close>

text \<open>
  The values \<^verbatim>\<open>compressWithProgress\<close> destructures from \<^verbatim>\<open>options\<close>: the chunk size,
  and the object it hands to the codec.
\<close>

definition chunkSizeOf :: "options \<Rightarrow> int" where
  "chunkSizeOf options = (case opt_chunkSize options of None \<Rightarrow> 1024 * 1024 | Some c \<Rightarrow> c)"

definition brotliOptionsOf :: "options \<Rightarrow> brotliOptions" where
  "brotliOptionsOf options =
     \<lparr>enc_mode = (case opt_mode options of None \<Rightarrow> 0 | Some m \<Rightarrow> m),
      enc_quality = (case opt_quality options of None \<Rightarrow> 6 | Some q \<Rightarrow> q),
      enc_lgwin = (case opt_lgwin options of None \<Rightarrow> 22 | Some l \<Rightarrow> l)\<rparr>"

text \<open>The codec calls of a run, and what the callback was told, in order.\<close>

fun encodeCalls :: "effect list \<Rightarrow> (bytes \<times> brotliOptions) list" where
  "encodeCalls [] = []"
| "encodeCalls (Encode c opts # tr) = (c, opts) # encodeCalls tr"
| "encodeCalls (_ # tr) = encodeCalls tr"

fun progressEvents :: "effect list \<Rightarrow> (real \<times> nat) list" where
  "progressEvents [] = []"
| "progressEvents (Progress p n # tr) = (p, n) # progressEvents tr"
| "progressEvents (_ # tr) = progressEvents tr"

subsection \<open>The loop in closed form\<close>

text \<open>
  With a positive chunk size the loop index takes the values \<open>i, i + chunkSize, \<dots>\<close> below
  the length, and the loop is a recursion over that list. Both definitions serve the proofs
  only; \<open>streamLoop_runChunks\<close> ties them to the loop.
\<close>

definition loopIndices :: "int \<Rightarrow> int \<Rightarrow> int \<Rightarrow> int list" where
  "loopIndices len chunkSize i =
     map (\<lambda>k. i + int k * chunkSize) [0..<nat ((len - i + chunkSize - 1) div chunkSize)]"

fun runChunks ::
  "(int \<Rightarrow> effect list \<times> (string + bytes)) \<Rightarrow> int list \<Rightarrow> bytes list \<Rightarrow> effect list \<Rightarrow>
   effect list \<times> (string + bytes list)"
where
  "runChunks step [] chunks tr = (tr, Inr chunks)"
| "runChunks step (i # is) chunks tr =
     (case step i of
        (es, Inl e) \<Rightarrow> (tr @ es, Inl e)
      | (es, Inr compressedChunk) \<Rightarrow> runChunks step is (chunks @ [compressedChunk]) (tr @ es))"

subsection \<open>A codec and options for the examples\<close>

text \<open>A codec that copies its input and never throws, and the empty options object.\<close>

definition copyEncode :: encoder where
  "copyEncode d opts = Inr d"

definition copyDecode :: decoder where
  "copyDecode d = Inr d"

definition noOptions :: options where
  "noOptions = \<lparr>opt_quality = None, opt_mode = None, opt_chunkSize = None, opt_lgwin = None\<rparr>"

text \<open>A codec that throws on one given chunk and copies every other.\<close>

definition rejecting :: "bytes \<Rightarrow> encoder" where
  "rejecting bad d opts = (if d = bad then Inl ''rejected'' else Inr d)"

section \<open>Properties\<close>

subsection \<open>Arithmetic of the loop index\<close>

lemma div_nonpos_below: "1 \<le> (cs::int) \<Longrightarrow> x < cs \<Longrightarrow> x div cs \<le> 0"
proof -
  assume a: "1 \<le> cs" "x < cs"
  have "x div cs \<le> (cs - 1) div cs" using a by (intro zdiv_mono1) auto
  also have "(cs - 1) div cs = 0" using a by (simp add: div_pos_pos_trivial)
  finally show ?thesis .
qed

lemma ceiling_as_div:
  "1 \<le> (cs::int) \<Longrightarrow> \<lceil>real_of_int n / real_of_int cs\<rceil> = (n + cs - 1) div cs"
proof -
  assume a: "1 \<le> cs"
  have "\<lceil>real_of_int n / real_of_int cs\<rceil> = - (- n div cs)" by (rule ceiling_divide_eq_div)
  also have "\<dots> = (n + cs - 1) div cs"
  proof -
    have "(n - 1 + cs) div cs = (n - 1) div cs + 1" using a by simp
    then have "(n + cs - 1) div cs = (n - 1) div cs + 1" by (simp add: algebra_simps)
    moreover have "- n div cs = - 1 - (n - 1) div cs"
    proof (rule int_div_pos_eq)
      show "- n = cs * (- 1 - (n - 1) div cs) + (cs - 1 - (n - 1) mod cs)"
        using mult_div_mod_eq[of cs "n - 1"] by (simp add: algebra_simps)
      show "0 \<le> cs - 1 - (n - 1) mod cs"
        using a pos_mod_bound[of cs "n - 1"] by linarith
      show "cs - 1 - (n - 1) mod cs < cs"
        using a pos_mod_sign[of cs "n - 1"] by linarith
    qed
    ultimately show ?thesis by simp
  qed
  finally show ?thesis .
qed

lemma loopIndices_done: "1 \<le> cs \<Longrightarrow> \<not> i < len \<Longrightarrow> loopIndices len cs i = []"
proof -
  assume a: "1 \<le> cs" "\<not> i < len"
  then have "len - i + cs - 1 < cs" by simp
  then have "(len - i + cs - 1) div cs \<le> 0" using a(1) by (rule div_nonpos_below[rotated])
  then show ?thesis by (simp add: loopIndices_def)
qed

lemma loopIndices_step:
  assumes "1 \<le> cs" "i < len"
  shows "loopIndices len cs i = i # loopIndices len cs (i + cs)"
proof -
  have "(len - i - 1 + cs) div cs = (len - i - 1) div cs + 1" using assms(1) by simp
  then have e: "(len - i + cs - 1) div cs = (len - (i + cs) + cs - 1) div cs + 1"
    by (simp add: algebra_simps)
  have nn: "0 \<le> (len - (i + cs) + cs - 1) div cs"
    using assms by (simp add: pos_imp_zdiv_nonneg_iff)
  have "nat ((len - i + cs - 1) div cs) = Suc (nat ((len - (i + cs) + cs - 1) div cs))"
    using e nn by simp
  then show ?thesis
    by (simp add: loopIndices_def upt_conv_Cons map_Suc_upt[symmetric] distrib_right
             del: upt_Suc)
qed

subsection \<open>The loop ends when the chunk size is positive\<close>

lemma streamLoop_runChunks:
  assumes "1 \<le> chunkSize"
  shows "streamLoop enc cb data opts chunkSize i chunks tr =
         Some (runChunks (chunkStep enc cb data opts chunkSize)
                 (loopIndices (int (length data)) chunkSize i) chunks tr)"
proof (induction "nat (int (length data) - i)" arbitrary: i chunks tr rule: less_induct)
  case less
  show ?case
  proof (cases "i < int (length data)")
    case False
    then show ?thesis
      using assms by (subst streamLoop.simps) (simp add: loopIndices_done)
  next
    case True
    have m: "nat (int (length data) - (i + chunkSize)) < nat (int (length data) - i)"
      using True assms by linarith
    show ?thesis
      using True assms less[OF m]
      by (subst streamLoop.simps) (simp add: loopIndices_step split: prod.splits sum.splits)
  qed
qed

subsection \<open>The two paths of \<^verbatim>\<open>compressWithProgress\<close>\<close>

lemma compressWithProgress_oneShot:
  assumes "chunkSizeOf options = 0 \<or> int (length data) \<le> chunkSizeOf options"
  shows "compressWithProgress enc this data options cb startTime endTime =
         Some ([Encode data (brotliOptionsOf options)],
               case enc data (brotliOptionsOf options) of
                 Inr compressedData \<Rightarrow>
                   (Inr compressedData,
                    this\<lparr>performanceMetrics :=
                      (performanceMetrics this)
                        \<lparr>compressionTime := endTime - startTime,
                         originalSize := length data,
                         compressedSize := length compressedData\<rparr>\<rparr>)
               | Inl message \<Rightarrow> (Inl (''Compression failed: '' @ message), this))"
  using assms
  by (auto simp: compressWithProgress_def chunkSizeOf_def brotliOptionsOf_def Let_def
           split: sum.splits)

lemma metrics_after_compress:
  "(m\<lparr>compressionTime := a, originalSize := b, compressedSize := c\<rparr>) =
   \<lparr>compressionTime = a, decompressionTime = decompressionTime m, originalSize = b,
    compressedSize = c\<rparr>"
  by (cases m) simp

lemma compressWithProgress_cases:
  assumes "compressWithProgress enc this data options cb startTime endTime = Some (tr, r, this')"
  shows "(\<exists>y. r = Inr y \<and>
            this' = this\<lparr>performanceMetrics :=
                      \<lparr>compressionTime = endTime - startTime,
                       decompressionTime = decompressionTime (performanceMetrics this),
                       originalSize = length data, compressedSize = length y\<rparr>\<rparr>)
         \<or> (\<exists>cause. r = Inl (''Compression failed: '' @ cause) \<and> this' = this)"
proof -
  have "\<exists>X. compressWithProgress enc this data options cb startTime endTime =
      map_option
       (\<lambda>(tr, r).
           case r of
             Inr compressedData \<Rightarrow>
               (tr, Inr compressedData,
                this\<lparr>performanceMetrics :=
                  (performanceMetrics this)
                    \<lparr>compressionTime := endTime - startTime,
                     originalSize := length data,
                     compressedSize := length compressedData\<rparr>\<rparr>)
           | Inl message \<Rightarrow> (tr, Inl (''Compression failed: '' @ message), this)) X"
    unfolding compressWithProgress_def Let_def by (rule exI) (rule refl)
  then obtain X where X: "compressWithProgress enc this data options cb startTime endTime =
      map_option
       (\<lambda>(tr, r).
           case r of
             Inr compressedData \<Rightarrow>
               (tr, Inr compressedData,
                this\<lparr>performanceMetrics :=
                  (performanceMetrics this)
                    \<lparr>compressionTime := endTime - startTime,
                     originalSize := length data,
                     compressedSize := length compressedData\<rparr>\<rparr>)
           | Inl message \<Rightarrow> (tr, Inl (''Compression failed: '' @ message), this)) X" ..
  from X assms obtain tr0 r0 where "X = Some (tr0, r0)" by (cases X) auto
  with X assms show ?thesis
    by (cases r0) (simp_all add: metrics_after_compress)
qed

lemma compressWithProgress_success:
  assumes "compressWithProgress enc this data options cb startTime endTime = Some (tr, Inr y, this')"
  shows "this' = this\<lparr>performanceMetrics :=
                   \<lparr>compressionTime = endTime - startTime,
                    decompressionTime = decompressionTime (performanceMetrics this),
                    originalSize = length data, compressedSize = length y\<rparr>\<rparr>"
  using compressWithProgress_cases[OF assms] by auto


lemma decompress_success:
  assumes "decompress dec this y startTime endTime = (tr, Inr d, this')"
  shows "this' = this\<lparr>performanceMetrics :=
                   (performanceMetrics this)\<lparr>decompressionTime := endTime - startTime\<rparr>\<rparr>
         \<and> dec y = Inr d \<and> tr = [Decode y]"
  using assms by (auto simp: decompress_def split: sum.splits)

lemma runChunks_trace: "\<exists>es. fst (runChunks step is chunks tr) = tr @ es"
proof (induction "is" arbitrary: chunks tr)
  case Nil
  then show ?case by simp
next
  case (Cons i "is")
  obtain es r where s: "step i = (es, r)" by (cases "step i")
  show ?case
  proof (cases r)
    case (Inl e)
    then show ?thesis using s by simp
  next
    case (Inr c)
    from Cons[of "chunks @ [c]" "tr @ es"] obtain es' where
      "fst (runChunks step is (chunks @ [c]) (tr @ es)) = (tr @ es) @ es'" by blast
    then show ?thesis using s Inr by simp
  qed
qed

lemma chunkStep_first:
  "\<exists>es. fst (chunkStep enc cb data opts cs i) = Encode (slice data i (i + cs)) opts # es"
  by (simp add: chunkStep_def Let_def split: sum.splits option.splits)

lemma runChunks_first:
  "\<exists>es. fst (runChunks (chunkStep enc cb data opts cs) (i # is) [] []) =
         Encode (slice data i (i + cs)) opts # es"
proof -
  obtain es r where s: "chunkStep enc cb data opts cs i = (es, r)"
    by (cases "chunkStep enc cb data opts cs i")
  from chunkStep_first[of enc cb data opts cs i] s obtain es' where
    es: "es = Encode (slice data i (i + cs)) opts # es'" by auto
  show ?thesis
  proof (cases r)
    case (Inl e)
    then show ?thesis using s es by simp
  next
    case (Inr c)
    from runChunks_trace[of "chunkStep enc cb data opts cs" "is" "[c]" es] 
    show ?thesis using s es Inr by auto
  qed
qed

lemma compressWithProgress_chunked:
  assumes "chunkSizeOf options \<noteq> 0" "chunkSizeOf options < int (length data)"
  shows "compressWithProgress enc this data options cb startTime endTime =
         (case streamLoop enc cb data (brotliOptionsOf options) (chunkSizeOf options) 0 [] [] of
            None \<Rightarrow> None
          | Some (tr, Inl message) \<Rightarrow> Some (tr, Inl (''Compression failed: '' @ message), this)
          | Some (tr, Inr chunks) \<Rightarrow>
              Some (tr, Inr (concat chunks),
                    this\<lparr>performanceMetrics :=
                      \<lparr>compressionTime = endTime - startTime,
                       decompressionTime = decompressionTime (performanceMetrics this),
                       originalSize = length data,
                       compressedSize = length (concat chunks)\<rparr>\<rparr>))"
  using assms
  by (simp add: compressWithProgress_def streamCompress_def Let_def chunkSizeOf_def
        brotliOptionsOf_def metrics_after_compress split: option.splits sum.splits prod.splits)

subsection \<open>The chunked path in closed form\<close>

lemma runChunks_all_ok:
  assumes "\<forall>i\<in>set is. \<exists>c. snd (step i) = Inr c"
  shows "runChunks step is chunks tr =
         (tr @ concat (map (\<lambda>i. fst (step i)) is),
          Inr (chunks @ map (\<lambda>i. projr (snd (step i))) is))"
  using assms
proof (induction "is" arbitrary: chunks tr)
  case Nil
  then show ?case by simp
next
  case (Cons i "is")
  obtain es r where s: "step i = (es, r)" by (cases "step i")
  with Cons.prems obtain c where c: "r = Inr c" by auto
  show ?case using Cons.IH[of "chunks @ [c]" "tr @ es"] Cons.prems s c by simp
qed

lemma runChunks_first_failure:
  assumes "\<forall>i\<in>set as. \<exists>c. snd (step i) = Inr c" and "snd (step j) = Inl e"
  shows "runChunks step (as @ j # bs) chunks tr =
         (tr @ concat (map (\<lambda>i. fst (step i)) (as @ [j])), Inl e)"
  using assms
proof (induction as arbitrary: chunks tr)
  case Nil
  then show ?case by (cases "step j") simp
next
  case (Cons i as)
  obtain es r where s: "step i = (es, r)" by (cases "step i")
  with Cons.prems obtain c where c: "r = Inr c" by auto
  show ?case using Cons.IH[of "chunks @ [c]" "tr @ es"] Cons.prems s c by simp
qed

lemma first_failure_split:
  assumes "\<exists>i\<in>set is. \<not> P i"
  shows "\<exists>as j bs. is = as @ j # bs \<and> (\<forall>i\<in>set as. P i) \<and> \<not> P j"
  using assms
proof (induction "is")
  case Nil
  then show ?case by simp
next
  case (Cons i "is")
  show ?case
  proof (cases "P i")
    case False
    then have "i # is = [] @ i # is \<and> (\<forall>x\<in>set []. P x) \<and> \<not> P i" by simp
    then show ?thesis by blast
  next
    case True
    with Cons obtain as j bs where "is = as @ j # bs" "\<forall>i\<in>set as. P i" "\<not> P j" by auto
    then have "i # is = (i # as) @ j # bs \<and> (\<forall>x\<in>set (i # as). P x) \<and> \<not> P j"
      using True by simp
    then show ?thesis by blast
  qed
qed

lemma encodeCalls_append: "encodeCalls (a @ b) = encodeCalls a @ encodeCalls b"
  by (induction a rule: encodeCalls.induct) simp_all


lemma encodeCalls_chunkStep:
  "encodeCalls (fst (chunkStep enc cb data opts cs i)) = [(slice data i (i + cs), opts)]"
  by (simp add: chunkStep_def Let_def split: sum.splits option.splits)

lemma encodeCalls_concat:
  "encodeCalls (concat (map (\<lambda>i. fst (chunkStep enc cb data opts cs i)) is)) =
   map (\<lambda>i. (slice data i (i + cs), opts)) is"
  by (induction "is") (simp_all add: encodeCalls_append encodeCalls_chunkStep)



lemma loopIndices_zero:
  "loopIndices len cs 0 = map (\<lambda>k. int k * cs) [0..<nat ((len + cs - 1) div cs)]"
  by (simp add: loopIndices_def)

lemma loopIndices_ceiling:
  assumes "1 \<le> cs"
  shows "loopIndices (int n) cs 0 =
         map (\<lambda>k. int k * cs) [0..<nat \<lceil>real n / real_of_int cs\<rceil>]"
  using ceiling_as_div[OF assms, of "int n"] by (simp add: loopIndices_zero)

lemma streamLoop_result:
  assumes "1 \<le> cs"
  shows "((\<forall>i\<in>set (loopIndices (int (length data)) cs 0).
            \<exists>c. snd (chunkStep enc cb data opts cs i) = Inr c) \<and>
          streamLoop enc cb data opts cs 0 [] [] =
            Some (concat (map (\<lambda>i. fst (chunkStep enc cb data opts cs i))
                            (loopIndices (int (length data)) cs 0)),
                  Inr (map (\<lambda>i. projr (snd (chunkStep enc cb data opts cs i)))
                         (loopIndices (int (length data)) cs 0))))
       \<or> (\<exists>as j bs e.
            loopIndices (int (length data)) cs 0 = as @ j # bs \<and>
            (\<forall>i\<in>set as. \<exists>c. snd (chunkStep enc cb data opts cs i) = Inr c) \<and>
            snd (chunkStep enc cb data opts cs j) = Inl e \<and>
            streamLoop enc cb data opts cs 0 [] [] =
              Some (concat (map (\<lambda>i. fst (chunkStep enc cb data opts cs i)) (as @ [j])), Inl e))"
proof -
  let ?step = "chunkStep enc cb data opts cs"
  let ?is = "loopIndices (int (length data)) cs 0"
  have l: "streamLoop enc cb data opts cs 0 [] [] = Some (runChunks ?step ?is [] [])"
    using assms by (rule streamLoop_runChunks)
  show ?thesis
  proof (cases "\<forall>i\<in>set ?is. \<exists>c. snd (?step i) = Inr c")
    case True
    from runChunks_all_ok[OF True, of "[]" "[]"] l True show ?thesis by simp
  next
    case False
    then have "\<exists>i\<in>set ?is. \<not> (\<exists>c. snd (?step i) = Inr c)" by simp
    from first_failure_split[OF this] obtain as j bs where
      sp: "?is = as @ j # bs" "\<forall>i\<in>set as. \<exists>c. snd (?step i) = Inr c"
          "\<not> (\<exists>c. snd (?step j) = Inr c)" by blast
    from sp(3) obtain e where e: "snd (?step j) = Inl e" by (cases "snd (?step j)") auto
    from runChunks_first_failure[OF sp(2) e, of bs "[]" "[]"] l sp(1)
    have "streamLoop enc cb data opts cs 0 [] [] =
              Some (concat (map (\<lambda>i. fst (?step i)) (as @ [j])), Inl e)" by simp
    with sp e show ?thesis by blast
  qed
qed

lemma streamLoop_calls:
  assumes "1 \<le> chunkSize"
  shows "\<exists>tr r. streamLoop enc cb data opts chunkSize 0 [] [] = Some (tr, r)
           \<and> length (encodeCalls tr) \<le> nat \<lceil>real (length data) / real_of_int chunkSize\<rceil>
           \<and> ((\<exists>y. r = Inr y) \<longrightarrow>
                encodeCalls tr =
                  map (\<lambda>k. (slice data (int k * chunkSize) (int k * chunkSize + chunkSize), opts))
                    [0..<nat \<lceil>real (length data) / real_of_int chunkSize\<rceil>])"
proof -
  let ?N = "nat \<lceil>real (length data) / real_of_int chunkSize\<rceil>"
  have len: "length (loopIndices (int (length data)) chunkSize 0) = ?N"
    by (simp add: loopIndices_ceiling[OF assms])
  from streamLoop_result[OF assms, of data enc cb opts]
  show ?thesis
  proof (elim disjE conjE exE)
    assume a: "streamLoop enc cb data opts chunkSize 0 [] [] =
      Some (concat (map (\<lambda>i. fst (chunkStep enc cb data opts chunkSize i))
                     (loopIndices (int (length data)) chunkSize 0)),
            Inr (map (\<lambda>i. projr (snd (chunkStep enc cb data opts chunkSize i)))
                  (loopIndices (int (length data)) chunkSize 0)))"
    have "encodeCalls (concat (map (\<lambda>i. fst (chunkStep enc cb data opts chunkSize i))
                     (loopIndices (int (length data)) chunkSize 0))) =
          map (\<lambda>k. (slice data (int k * chunkSize) (int k * chunkSize + chunkSize), opts))
            [0..<?N]"
      by (subst encodeCalls_concat) (simp add: loopIndices_ceiling[OF assms] comp_def)
    then show ?thesis
      unfolding a by simp
  next
    fix as j bs e
    assume sp: "loopIndices (int (length data)) chunkSize 0 = as @ j # bs"
      and a: "streamLoop enc cb data opts chunkSize 0 [] [] =
            Some (concat (map (\<lambda>i. fst (chunkStep enc cb data opts chunkSize i)) (as @ [j])),
                  Inl e)"
    have "length (as @ [j]) \<le> ?N" using len sp by simp
    then show ?thesis
      unfolding a using encodeCalls_concat[of enc cb data opts chunkSize "as @ [j]"]
      by simp
  qed
qed

lemma streamCompress_calls:
  assumes "1 \<le> chunkSize"
  shows "\<exists>tr r. streamCompress enc data quality mode chunkSize lgwin cb = Some (tr, r)
           \<and> length (encodeCalls tr) \<le> nat \<lceil>real (length data) / real_of_int chunkSize\<rceil>
           \<and> ((\<exists>y. r = Inr y) \<longrightarrow>
                encodeCalls tr =
                  map (\<lambda>k. (slice data (int k * chunkSize) (int k * chunkSize + chunkSize),
                             \<lparr>enc_mode = mode, enc_quality = quality, enc_lgwin = lgwin\<rparr>))
                    [0..<nat \<lceil>real (length data) / real_of_int chunkSize\<rceil>])"
proof -
  let ?opts = "\<lparr>enc_mode = mode, enc_quality = quality, enc_lgwin = lgwin\<rparr>"
  let ?N = "nat \<lceil>real (length data) / real_of_int chunkSize\<rceil>"
  from streamLoop_calls[OF assms, of enc cb data ?opts] obtain tr r where
    "streamLoop enc cb data ?opts chunkSize 0 [] [] = Some (tr, r)"
    "length (encodeCalls tr) \<le> ?N"
    "(\<exists>y. r = Inr y) \<longrightarrow>
              encodeCalls tr =
                map (\<lambda>k. (slice data (int k * chunkSize) (int k * chunkSize + chunkSize), ?opts))
                  [0..<?N]" by blast
  then show ?thesis
    by (cases r) (simp_all add: streamCompress_def)
qed

lemma chunkRanges_loopIndices:
  assumes "1 \<le> cs"
  shows "chunkRanges len cs i =
         Some (map (\<lambda>j. sliceRange len j (j + cs)) (loopIndices len cs i))"
proof (induction "nat (len - i)" arbitrary: i rule: less_induct)
  case less
  show ?case
  proof (cases "i < len")
    case False
    then show ?thesis
      using assms by (subst chunkRanges.simps) (simp add: loopIndices_done)
  next
    case True
    have m: "nat (len - (i + cs)) < nat (len - i)"
      using True assms by linarith
    show ?thesis
      using True assms less[OF m]
      by (subst chunkRanges.simps) (simp add: loopIndices_step)
  qed
qed

lemma ceil_bounds:
  assumes "1 \<le> (cs::int)"
  shows "((len + cs - 1) div cs - 1) * cs < len \<and> len \<le> ((len + cs - 1) div cs) * cs"
proof -
  let ?q = "(len + cs - 1) div cs" and ?r = "(len + cs - 1) mod cs"
  have e: "len + cs - 1 = ?q * cs + ?r" by simp
  have r: "0 \<le> ?r" "?r < cs"
    using assms pos_mod_sign[of cs "len + cs - 1"] pos_mod_bound[of cs "len + cs - 1"]
    by linarith+
  have "(?q - 1) * cs = ?q * cs - cs" by (simp add: algebra_simps)
  then show ?thesis using e r by linarith
qed

lemma index_below:
  assumes "1 \<le> (cs::int)" "int k < (len + cs - 1) div cs"
  shows "int k * cs < len"
proof -
  have "int k \<le> (len + cs - 1) div cs - 1" using assms(2) by simp
  then have "int k * cs \<le> ((len + cs - 1) div cs - 1) * cs"
    using assms(1) by (intro mult_right_mono) auto
  then show ?thesis using ceil_bounds[OF assms(1), of len] by linarith
qed

lemma next_index_below:
  assumes "1 \<le> (cs::int)" "int (Suc k) < (len + cs - 1) div cs"
  shows "int k * cs + cs < len"
  using index_below[OF assms] by (simp add: algebra_simps)

lemma last_index_reaches:
  assumes "1 \<le> (cs::int)" "int (Suc k) = (len + cs - 1) div cs"
  shows "len \<le> int k * cs + cs"
proof -
  have "int k * cs + cs = ((len + cs - 1) div cs) * cs"
    using assms(2)[symmetric] by (simp add: algebra_simps)
  then show ?thesis using ceil_bounds[OF assms(1), of len] by linarith
qed

lemma chunkRanges_closed:
  assumes "1 \<le> cs"
  shows "chunkRanges len cs 0 =
         Some (map (\<lambda>k. (int k * cs, min (int k * cs + cs) len))
                 [0..<nat ((len + cs - 1) div cs)])"
proof -
  have "sliceRange len (int k * cs) (int k * cs + cs) = (int k * cs, min (int k * cs + cs) len)"
    if "k < nat ((len + cs - 1) div cs)" for k
  proof -
    have "int k < (len + cs - 1) div cs" using that by simp
    from index_below[OF assms this] have "int k * cs < len" .
    moreover have "(int k * cs < 0) = False" "(int k * cs + cs < 0) = False"
      using assms by (simp_all add: not_less add_nonneg_nonneg)
    ultimately show ?thesis by (simp add: sliceRange_def)
  qed
  then show ?thesis
    by (simp add: chunkRanges_loopIndices[OF assms] loopIndices_zero comp_def)
qed

lemma slice_chunk:
  assumes "1 \<le> cs" "int k * cs < int (length data)"
  shows "slice data (int k * cs) (int k * cs + cs) =
         take (nat (min (int k * cs + cs) (int (length data)) - int k * cs))
           (drop (nat (int k * cs)) data)"
proof -
  have "(int k * cs < 0) = False" "(int k * cs + cs < 0) = False"
    using assms(1) by (simp_all add: not_less add_nonneg_nonneg)
  then have "sliceRange (int (length data)) (int k * cs) (int k * cs + cs) =
        (int k * cs, min (int k * cs + cs) (int (length data)))"
    using assms(2) by (simp add: sliceRange_def)
  then show ?thesis by (simp add: slice_def)
qed




lemma chunkStep_enc_fails:
  assumes "enc (slice data i (i + cs)) opts = Inl e"
  shows "chunkStep enc cb data opts cs i = ([Encode (slice data i (i + cs)) opts], Inl e)"
  using assms by (simp add: chunkStep_def Let_def)

lemma chunkStep_Inl:
  assumes "snd (chunkStep enc cb data opts cs i) = Inl e"
  shows "fst (chunkStep enc cb data opts cs i) \<noteq> [] \<and>
         ((\<exists>c. last (fst (chunkStep enc cb data opts cs i)) = Encode c opts \<and> enc c opts = Inl e)
          \<or> (\<exists>f p n. cb = Some f \<and>
                last (fst (chunkStep enc cb data opts cs i)) = Progress p n \<and> f p n = Some e))"
  using assms by (auto simp: chunkStep_def Let_def split: sum.splits option.splits)

lemma chunkStep_ok:
  assumes "enc (slice data i (i + cs)) opts = Inr c" and "\<forall>f p n. cb = Some f \<longrightarrow> f p n = None"
  shows "snd (chunkStep enc cb data opts cs i) = Inr c"
  using assms by (auto simp: chunkStep_def Let_def split: sum.splits option.splits)

lemma upt_map_split:
  assumes "map g [0..<N] = as @ j # bs"
  shows "as = map g [0..<length as] \<and> j = g (length as) \<and> length as < N"
proof -
  have lt: "length as < N" using arg_cong[OF assms, of length] by simp
  have "take (length as) (map g [0..<N]) = as" using assms by simp
  then have as: "as = map g [0..<length as]" using lt by (simp add: take_map min_def)
  have "(map g [0..<N]) ! length as = j" using assms by (simp add: nth_append)
  then have "j = g (length as)" using lt by simp
  with as lt show ?thesis by simp
qed

subsection \<open>Configuration\<close>

text \<open>
  Claim C1, as amended. The claim says that quality 12, lgwin 25 or chunk size 0 is rejected
  with an invalid-configuration error before any codec call. The source has no check of the
  configuration. With one of these values (and a chunk size that is not negative, so that
  the loop ends) the call returns, its first effect is a codec call with the mode, quality and
  lgwin of the options passed through unchanged, and it either succeeds or fails with the
  message \<^verbatim>\<open>Compression failed: \<close> followed by the cause.
\<close>

theorem no_configuration_check:
  assumes "opt_quality options = Some 12 \<or> opt_lgwin options = Some 25 \<or>
           opt_chunkSize options = Some 0"
      and "0 \<le> chunkSizeOf options"
  shows "\<exists>tr r this' c es.
           compressWithProgress enc this data options cb startTime endTime = Some (tr, r, this')
           \<and> tr = Encode c (brotliOptionsOf options) # es
           \<and> ((\<exists>y. r = Inr y) \<or> (\<exists>cause. r = Inl (''Compression failed: '' @ cause)))"
proof (cases "chunkSizeOf options \<noteq> 0 \<and> chunkSizeOf options < int (length data)")
  case False
  then have "chunkSizeOf options = 0 \<or> int (length data) \<le> chunkSizeOf options" by auto
  from compressWithProgress_oneShot[OF this, of enc this cb startTime endTime]
  show ?thesis by (cases "enc data (brotliOptionsOf options)") auto
next
  case True
  then have cs: "1 \<le> chunkSizeOf options" using assms(2) by simp
  let ?step = "chunkStep enc cb data (brotliOptionsOf options) (chunkSizeOf options)"
  let ?is = "loopIndices (int (length data)) (chunkSizeOf options) 0"
  have l: "streamLoop enc cb data (brotliOptionsOf options) (chunkSizeOf options) 0 [] [] =
           Some (runChunks ?step ?is [] [])"
    using cs by (rule streamLoop_runChunks)
  have "0 < int (length data)" using True cs by linarith
  then have "?is = 0 # loopIndices (int (length data)) (chunkSizeOf options)
                         (0 + chunkSizeOf options)"
    using cs by (intro loopIndices_step) 
  then obtain js where js: "?is = 0 # js" by blast
  from runChunks_first[of enc cb data "brotliOptionsOf options" "chunkSizeOf options" 0 js]
  obtain es where es: "fst (runChunks ?step ?is [] []) =
        Encode (slice data 0 (0 + chunkSizeOf options)) (brotliOptionsOf options) # es"
    using js by auto
  obtain tr r where tr: "runChunks ?step ?is [] [] = (tr, r)"
    by (cases "runChunks ?step ?is [] []")
  show ?thesis
    using True l es tr
    by (cases r) (simp_all add: compressWithProgress_chunked)
qed

theorem no_configuration_check_witness:
  "(opt_quality (noOptions\<lparr>opt_quality := Some 12\<rparr>) = Some 12 \<or>
    opt_lgwin (noOptions\<lparr>opt_quality := Some 12\<rparr>) = Some 25 \<or>
    opt_chunkSize (noOptions\<lparr>opt_quality := Some 12\<rparr>) = Some 0)
   \<and> 0 \<le> chunkSizeOf (noOptions\<lparr>opt_quality := Some 12\<rparr>)
   \<and> (\<exists>tr r this' c es.
         compressWithProgress copyEncode constructor [1, 2, 3] (noOptions\<lparr>opt_quality := Some 12\<rparr>)
           None 0 1 = Some (tr, r, this')
         \<and> tr = Encode c (brotliOptionsOf (noOptions\<lparr>opt_quality := Some 12\<rparr>)) # es
         \<and> ((\<exists>y. r = Inr y) \<or> (\<exists>cause. r = Inl (''Compression failed: '' @ cause))))"
proof -
  have a: "opt_quality (noOptions\<lparr>opt_quality := Some 12\<rparr>) = Some 12 \<or>
    opt_lgwin (noOptions\<lparr>opt_quality := Some 12\<rparr>) = Some 25 \<or>
    opt_chunkSize (noOptions\<lparr>opt_quality := Some 12\<rparr>) = Some 0" by simp
  have b: "0 \<le> chunkSizeOf (noOptions\<lparr>opt_quality := Some 12\<rparr>)"
    by (simp add: chunkSizeOf_def noOptions_def)
  from a b no_configuration_check[OF a b, of copyEncode constructor "[1, 2, 3]" None 0 1]
  show ?thesis by blast
qed

text \<open>
  The claim C1 as stated fails: with the copying codec and quality 12, lgwin 25 or chunk
  size 0, the call on three bytes makes a codec call and returns its output.
\<close>

theorem invalid_configuration_counterexample:
  "compressWithProgress copyEncode constructor [1, 2, 3] (noOptions\<lparr>opt_quality := Some 12\<rparr>)
     None 0 1 =
   Some ([Encode [1, 2, 3] \<lparr>enc_mode = 0, enc_quality = 12, enc_lgwin = 22\<rparr>], Inr [1, 2, 3],
         \<lparr>performanceMetrics =
            \<lparr>compressionTime = 1, decompressionTime = 0, originalSize = 3,
             compressedSize = 3\<rparr>\<rparr>)
   \<and> compressWithProgress copyEncode constructor [1, 2, 3] (noOptions\<lparr>opt_lgwin := Some 25\<rparr>)
     None 0 1 =
   Some ([Encode [1, 2, 3] \<lparr>enc_mode = 0, enc_quality = 6, enc_lgwin = 25\<rparr>], Inr [1, 2, 3],
         \<lparr>performanceMetrics =
            \<lparr>compressionTime = 1, decompressionTime = 0, originalSize = 3,
             compressedSize = 3\<rparr>\<rparr>)
   \<and> compressWithProgress copyEncode constructor [1, 2, 3] (noOptions\<lparr>opt_chunkSize := Some 0\<rparr>)
     None 0 1 =
   Some ([Encode [1, 2, 3] \<lparr>enc_mode = 0, enc_quality = 6, enc_lgwin = 22\<rparr>], Inr [1, 2, 3],
         \<lparr>performanceMetrics =
            \<lparr>compressionTime = 1, decompressionTime = 0, originalSize = 3,
             compressedSize = 3\<rparr>\<rparr>)"
  by (simp add: compressWithProgress_def noOptions_def copyEncode_def constructor_def)



subsection \<open>The one-shot path\<close>

text \<open>
  Claim C3: when the input is no longer than the chunk size, the only effect is one codec
  call on the whole buffer with the mode, quality and lgwin of the options; its output is
  returned as it is, the callback is never told anything, and a chunk size equal to the
  length gives the same run as a chunk size one larger.
\<close>

theorem oneShot_path:
  assumes "int (length data) \<le> chunkSizeOf options"
  shows "compressWithProgress enc this data options cb startTime endTime =
           Some ([Encode data (brotliOptionsOf options)],
                 case enc data (brotliOptionsOf options) of
                   Inr compressedData \<Rightarrow>
                     (Inr compressedData,
                      this\<lparr>performanceMetrics :=
                        (performanceMetrics this)
                          \<lparr>compressionTime := endTime - startTime,
                           originalSize := length data,
                           compressedSize := length compressedData\<rparr>\<rparr>)
                 | Inl message \<Rightarrow> (Inl (''Compression failed: '' @ message), this))
         \<and> progressEvents [Encode data (brotliOptionsOf options)] = []
         \<and> compressWithProgress enc this data
              (options\<lparr>opt_chunkSize := Some (int (length data))\<rparr>) cb startTime endTime =
            compressWithProgress enc this data
              (options\<lparr>opt_chunkSize := Some (int (length data) + 1)\<rparr>) cb startTime endTime"
proof -
  have a: "brotliOptionsOf (options\<lparr>opt_chunkSize := x\<rparr>) = brotliOptionsOf options" for x
    by (simp add: brotliOptionsOf_def)
  have b: "compressWithProgress enc this data
              (options\<lparr>opt_chunkSize := Some (int (length data))\<rparr>) cb startTime endTime =
            compressWithProgress enc this data
              (options\<lparr>opt_chunkSize := Some (int (length data) + 1)\<rparr>) cb startTime endTime"
    by (simp add: compressWithProgress_oneShot chunkSizeOf_def a)
  show ?thesis
    using assms b by (simp add: compressWithProgress_oneShot)
qed

theorem oneShot_path_witness:
  "int (length [1, 2, 3 :: byte]) \<le>
     chunkSizeOf \<lparr>opt_quality = None, opt_mode = None, opt_chunkSize = Some 3, opt_lgwin = None\<rparr>
   \<and> compressWithProgress (\<lambda>d opts. Inr d) constructor [1, 2, 3]
       \<lparr>opt_quality = None, opt_mode = None, opt_chunkSize = Some 3, opt_lgwin = None\<rparr>
       (Some (\<lambda>p n. None)) 0 1 =
     Some ([Encode [1, 2, 3] \<lparr>enc_mode = 0, enc_quality = 6, enc_lgwin = 22\<rparr>],
           Inr [1, 2, 3],
           \<lparr>performanceMetrics =
              \<lparr>compressionTime = 1, decompressionTime = 0, originalSize = 3,
               compressedSize = 3\<rparr>\<rparr>)"
  using oneShot_path[of "[1, 2, 3]"
      "\<lparr>opt_quality = None, opt_mode = None, opt_chunkSize = Some 3, opt_lgwin = None\<rparr>"
      "\<lambda>d opts. Inr d" constructor "Some (\<lambda>p n. None)" 0 1]
  by (simp add: chunkSizeOf_def brotliOptionsOf_def constructor_def)

text \<open>
  Claim C2: when the input is no longer than the chunk size, the decoder inverts the encoder
  and the encoder accepts the input, compressing and then decompressing gives the input
  back. No validity of the configuration is needed.
\<close>

theorem roundtrip_oneShot:
  assumes "\<forall>x opts z. enc x opts = Inr z \<longrightarrow> dec z = Inr x"
      and "int (length d) \<le> chunkSizeOf c"
      and "enc d (brotliOptionsOf c) = Inr y"
  shows "\<exists>this'. compressWithProgress enc this d c cb startTime endTime =
                   Some ([Encode d (brotliOptionsOf c)], Inr y, this')
                 \<and> fst (snd (decompress dec this' y start' end')) = Inr d"
proof -
  have "dec y = Inr d" using assms(1,3) by blast
  then show ?thesis
    using assms(2,3) by (simp add: compressWithProgress_oneShot decompress_def)
qed

theorem roundtrip_oneShot_witness:
  "int (length [1, 2, 3 :: byte]) \<le> chunkSizeOf noOptions
   \<and> copyEncode [1, 2, 3] (brotliOptionsOf noOptions) = Inr [1, 2, 3]
   \<and> (\<exists>this'. compressWithProgress copyEncode constructor [1, 2, 3] noOptions None 0 1 =
                   Some ([Encode [1, 2, 3] (brotliOptionsOf noOptions)], Inr [1, 2, 3], this')
                 \<and> fst (snd (decompress copyDecode this' [1, 2, 3] 2 3)) = Inr [1, 2, 3])"
proof -
  have a: "\<forall>x opts z. copyEncode x opts = Inr z \<longrightarrow> copyDecode z = Inr x"
    by (simp add: copyEncode_def copyDecode_def)
  have b: "int (length [1, 2, 3 :: byte]) \<le> chunkSizeOf noOptions"
    by (simp add: chunkSizeOf_def noOptions_def)
  have c: "copyEncode [1, 2, 3] (brotliOptionsOf noOptions) = Inr [1, 2, 3]"
    by (simp add: copyEncode_def)
  from b c roundtrip_oneShot[OF a b c, of constructor None 0 1 2 3]
  show ?thesis by blast
qed

subsection \<open>Metrics\<close>

text \<open>
  Claim C7: a successful compress sets the compression time and the two sizes from this call
  alone and keeps the decompression time; after two successful calls the metrics show the
  second; a successful decompress sets the decompression time and keeps the other three
  fields.
\<close>

theorem metrics_overwritten:
  "(compressWithProgress enc this data options cb startTime endTime = Some (tr, Inr y, this') \<longrightarrow>
      performanceMetrics this' =
        \<lparr>compressionTime = endTime - startTime,
         decompressionTime = decompressionTime (performanceMetrics this),
         originalSize = length data, compressedSize = length y\<rparr>)
   \<and> (compressWithProgress enc1 this0 data1 options1 cb1 start1 end1 = Some (tr1, Inr y1, this1) \<and>
      compressWithProgress enc2 this1 data2 options2 cb2 start2 end2 = Some (tr2, Inr y2, this2) \<longrightarrow>
      compressionTime (getMetrics this2) = end2 - start2 \<and>
      originalSize (getMetrics this2) = length data2 \<and>
      compressedSize (getMetrics this2) = length y2)
   \<and> (decompress dec this2' z start3 end3 = (tr3, Inr d, this3) \<longrightarrow>
      performanceMetrics this3 =
        \<lparr>compressionTime = compressionTime (performanceMetrics this2'),
         decompressionTime = end3 - start3,
         originalSize = originalSize (performanceMetrics this2'),
         compressedSize = compressedSize (performanceMetrics this2')\<rparr>)"
proof (intro conjI impI)
  assume "compressWithProgress enc this data options cb startTime endTime = Some (tr, Inr y, this')"
  from compressWithProgress_success[OF this]
  show "performanceMetrics this' =
        \<lparr>compressionTime = endTime - startTime,
         decompressionTime = decompressionTime (performanceMetrics this),
         originalSize = length data, compressedSize = length y\<rparr>" by simp
next
  assume a: "compressWithProgress enc1 this0 data1 options1 cb1 start1 end1 = Some (tr1, Inr y1, this1) \<and>
      compressWithProgress enc2 this1 data2 options2 cb2 start2 end2 = Some (tr2, Inr y2, this2)"
  from a compressWithProgress_success[of enc2 this1 data2 options2 cb2 start2 end2 tr2 y2 this2]
  have m: "performanceMetrics this2 = \<lparr>compressionTime = end2 - start2,
                    decompressionTime = decompressionTime (performanceMetrics this1),
                    originalSize = length data2, compressedSize = length y2\<rparr>" by simp
  show "compressionTime (getMetrics this2) = end2 - start2"
    by (simp add: getMetrics_def metrics.extend_def m)
  show "originalSize (getMetrics this2) = length data2"
    by (simp add: getMetrics_def metrics.extend_def m)
  show "compressedSize (getMetrics this2) = length y2"
    by (simp add: getMetrics_def metrics.extend_def m)
next
  assume "decompress dec this2' z start3 end3 = (tr3, Inr d, this3)"
  from decompress_success[OF this]
  show "performanceMetrics this3 =
        \<lparr>compressionTime = compressionTime (performanceMetrics this2'),
         decompressionTime = end3 - start3,
         originalSize = originalSize (performanceMetrics this2'),
         compressedSize = compressedSize (performanceMetrics this2')\<rparr>"
    by (cases "performanceMetrics this2'") simp
qed

theorem metrics_overwritten_witness:
  "compressWithProgress copyEncode constructor [1, 2, 3] noOptions None 0 2 =
     Some ([Encode [1, 2, 3] (brotliOptionsOf noOptions)], Inr [1, 2, 3],
           \<lparr>performanceMetrics =
              \<lparr>compressionTime = 2, decompressionTime = 0, originalSize = 3,
               compressedSize = 3\<rparr>\<rparr>)
   \<and> compressWithProgress copyEncode
       \<lparr>performanceMetrics =
          \<lparr>compressionTime = 2, decompressionTime = 0, originalSize = 3, compressedSize = 3\<rparr>\<rparr>
       [4, 5] noOptions None 5 6 =
     Some ([Encode [4, 5] (brotliOptionsOf noOptions)], Inr [4, 5],
           \<lparr>performanceMetrics =
              \<lparr>compressionTime = 1, decompressionTime = 0, originalSize = 2,
               compressedSize = 2\<rparr>\<rparr>)
   \<and> compressionTime (getMetrics
        \<lparr>performanceMetrics =
           \<lparr>compressionTime = 1, decompressionTime = 0, originalSize = 2,
            compressedSize = 2\<rparr>\<rparr>) = 6 - 5
   \<and> originalSize (getMetrics
        \<lparr>performanceMetrics =
           \<lparr>compressionTime = 1, decompressionTime = 0, originalSize = 2,
            compressedSize = 2\<rparr>\<rparr>) = length [4, 5 :: byte]
   \<and> compressedSize (getMetrics
        \<lparr>performanceMetrics =
           \<lparr>compressionTime = 1, decompressionTime = 0, originalSize = 2,
            compressedSize = 2\<rparr>\<rparr>) = length [4, 5 :: byte]
   \<and> decompress copyDecode
       \<lparr>performanceMetrics =
          \<lparr>compressionTime = 1, decompressionTime = 0, originalSize = 2, compressedSize = 2\<rparr>\<rparr>
       [4, 5] 7 10 =
     ([Decode [4, 5]], Inr [4, 5],
      \<lparr>performanceMetrics =
         \<lparr>compressionTime = 1, decompressionTime = 3, originalSize = 2, compressedSize = 2\<rparr>\<rparr>)"
proof -
  let ?p1 = "\<lparr>performanceMetrics =
              \<lparr>compressionTime = 2, decompressionTime = 0, originalSize = 3,
               compressedSize = 3\<rparr>\<rparr>"
  let ?p2 = "\<lparr>performanceMetrics =
              \<lparr>compressionTime = 1, decompressionTime = 0, originalSize = 2,
               compressedSize = 2\<rparr>\<rparr>"
  let ?p3 = "\<lparr>performanceMetrics =
         \<lparr>compressionTime = 1, decompressionTime = 3, originalSize = 2, compressedSize = 2\<rparr>\<rparr>"
  have c1: "compressWithProgress copyEncode constructor [1, 2, 3] noOptions None 0 2 =
     Some ([Encode [1, 2, 3] (brotliOptionsOf noOptions)], Inr [1, 2, 3], ?p1)"
    by (simp add: compressWithProgress_def noOptions_def copyEncode_def constructor_def
          brotliOptionsOf_def)
  have c2: "compressWithProgress copyEncode ?p1 [4, 5] noOptions None 5 6 =
     Some ([Encode [4, 5] (brotliOptionsOf noOptions)], Inr [4, 5], ?p2)"
    by (simp add: compressWithProgress_def noOptions_def copyEncode_def brotliOptionsOf_def)
  have d: "decompress copyDecode ?p2 [4, 5] 7 10 = ([Decode [4, 5]], Inr [4, 5], ?p3)"
    by (simp add: decompress_def copyDecode_def)
  from metrics_overwritten[of copyEncode constructor "[1, 2, 3]" noOptions None 0 2
      "[Encode [1, 2, 3] (brotliOptionsOf noOptions)]" "[1, 2, 3]" ?p1
      copyEncode constructor "[1, 2, 3]" noOptions None 0 2
      "[Encode [1, 2, 3] (brotliOptionsOf noOptions)]" "[1, 2, 3]" ?p1
      copyEncode "[4, 5]" noOptions None 5 6 "[Encode [4, 5] (brotliOptionsOf noOptions)]" "[4, 5]" ?p2
      copyDecode ?p2 "[4, 5]" 7 10 "[Decode [4, 5]]" "[4, 5]" ?p3] c1 c2 d
  show ?thesis by simp
qed

text \<open>
  Claim C8: the ratio is the original size over the compressed size, with 1 for a compressed
  size of 0; the snapshot holds the four metrics unchanged; and sizes 1000 and 0 give the
  ratio 1000.
\<close>

theorem getMetrics_ratio:
  "compressionRatio (getMetrics this) =
     real (originalSize (performanceMetrics this)) /
     real (max (compressedSize (performanceMetrics this)) 1)
   \<and> metrics.truncate (getMetrics this) = performanceMetrics this
   \<and> compressionRatio
       (getMetrics \<lparr>performanceMetrics =
          \<lparr>compressionTime = t, decompressionTime = u, originalSize = 1000,
           compressedSize = 0\<rparr>\<rparr>) = 1000"
  by (simp add: getMetrics_def metrics.extend_def metrics.truncate_def max_def)

subsection \<open>The chunked path\<close>

text \<open>
  Claim C10: with a chunk size of at least 1, \<^verbatim>\<open>streamCompress\<close> and
  \<^verbatim>\<open>compressWithProgress\<close> return for every input, codec and callback. The loop makes at
  most \<open>\<lceil>len / chunkSize\<rceil>\<close> codec calls, and when no call throws it makes exactly that many,
  the \<open>k\<close>-th on the slice from \<open>k * chunkSize\<close> to \<open>k * chunkSize + chunkSize\<close>.
  \<^verbatim>\<open>compressWithProgress\<close> as a whole then makes that many calls, and one call when the
  input is empty.
\<close>

theorem chunked_loop_terminates:
  assumes "1 \<le> chunkSize"
  shows "(\<exists>tr r. streamCompress enc data quality mode chunkSize lgwin cb = Some (tr, r)
           \<and> length (encodeCalls tr) \<le> nat \<lceil>real (length data) / real_of_int chunkSize\<rceil>
           \<and> ((\<exists>y. r = Inr y) \<longrightarrow>
                encodeCalls tr =
                  map (\<lambda>k. (slice data (int k * chunkSize) (int k * chunkSize + chunkSize),
                             \<lparr>enc_mode = mode, enc_quality = quality, enc_lgwin = lgwin\<rparr>))
                    [0..<nat \<lceil>real (length data) / real_of_int chunkSize\<rceil>]))
       \<and> (chunkSizeOf options = chunkSize \<longrightarrow>
            (\<exists>tr r this'.
               compressWithProgress enc this data options cb startTime endTime =
                 Some (tr, r, this')
               \<and> ((\<exists>y. r = Inr y) \<longrightarrow>
                    length (encodeCalls tr) =
                      max 1 (nat \<lceil>real (length data) / real_of_int chunkSize\<rceil>))))"
proof -
  let ?N = "nat \<lceil>real (length data) / real_of_int chunkSize\<rceil>"
  have B: "\<exists>tr r this'.
               compressWithProgress enc this data options cb startTime endTime =
                 Some (tr, r, this')
               \<and> ((\<exists>y. r = Inr y) \<longrightarrow> length (encodeCalls tr) = max 1 ?N)"
    if cso: "chunkSizeOf options = chunkSize"
  proof (cases "chunkSize < int (length data)")
    case False
    then have le: "int (length data) \<le> chunkSizeOf options" using cso by simp
    have "real (length data) / real_of_int chunkSize \<le> 1"
      using False assms by (simp add: divide_le_eq_1)
    then have "?N \<le> 1" by (simp add: ceiling_le_iff nat_le_iff)
    then have "max 1 ?N = 1" by simp
    then show ?thesis
      using compressWithProgress_oneShot[of options data enc this cb startTime endTime] le
      by (cases "enc data (brotliOptionsOf options)") simp_all
  next
    case True
    then have c: "chunkSizeOf options \<noteq> 0" "chunkSizeOf options < int (length data)"
      using cso assms by simp_all
    have "1 < real (length data) / real_of_int chunkSize"
      using True assms by (simp add: less_divide_eq_1)
    then have "1 \<le> ?N" by (simp add: less_ceiling_iff Suc_le_eq zless_nat_eq_int_zless)
    then have m: "max 1 ?N = ?N" by simp
    from streamLoop_calls[OF assms, of enc cb data "brotliOptionsOf options"] obtain tr r where
      l: "streamLoop enc cb data (brotliOptionsOf options) chunkSize 0 [] [] = Some (tr, r)"
      "(\<exists>y. r = Inr y) \<longrightarrow> length (encodeCalls tr) = ?N" by force
    show ?thesis
      using l m cso by (cases r) (simp_all add: compressWithProgress_chunked[OF c])
  qed
  from streamCompress_calls[OF assms, of enc data quality mode lgwin cb] B
  show ?thesis by blast
qed

theorem chunked_loop_terminates_witness:
  "streamCompress copyEncode [1, 2, 3, 4, 5, 6, 7, 8, 9, 10] 6 0 3 22 None =
     Some ([Encode [1, 2, 3] \<lparr>enc_mode = 0, enc_quality = 6, enc_lgwin = 22\<rparr>, Yield,
            Encode [4, 5, 6] \<lparr>enc_mode = 0, enc_quality = 6, enc_lgwin = 22\<rparr>, Yield,
            Encode [7, 8, 9] \<lparr>enc_mode = 0, enc_quality = 6, enc_lgwin = 22\<rparr>, Yield,
            Encode [10] \<lparr>enc_mode = 0, enc_quality = 6, enc_lgwin = 22\<rparr>, Yield],
           Inr [1, 2, 3, 4, 5, 6, 7, 8, 9, 10])
   \<and> nat \<lceil>real (length [1, 2, 3, 4, 5, 6, 7, 8, 9, 10 :: byte]) / real_of_int 3\<rceil> = 4
   \<and> (\<exists>tr r this'.
        compressWithProgress copyEncode constructor [1, 2, 3, 4, 5, 6, 7, 8, 9, 10]
          (noOptions\<lparr>opt_chunkSize := Some 3\<rparr>) None 0 1 = Some (tr, r, this')
        \<and> length (encodeCalls tr) = 4)"
proof -
  have a: "(1::int) \<le> 3" by simp
  have b: "chunkSizeOf (noOptions\<lparr>opt_chunkSize := Some 3\<rparr>) = 3"
    by (simp add: chunkSizeOf_def)
  have c: "streamCompress copyEncode [1, 2, 3, 4, 5, 6, 7, 8, 9, 10] 6 0 3 22 None =
     Some ([Encode [1, 2, 3] \<lparr>enc_mode = 0, enc_quality = 6, enc_lgwin = 22\<rparr>, Yield,
            Encode [4, 5, 6] \<lparr>enc_mode = 0, enc_quality = 6, enc_lgwin = 22\<rparr>, Yield,
            Encode [7, 8, 9] \<lparr>enc_mode = 0, enc_quality = 6, enc_lgwin = 22\<rparr>, Yield,
            Encode [10] \<lparr>enc_mode = 0, enc_quality = 6, enc_lgwin = 22\<rparr>, Yield],
           Inr [1, 2, 3, 4, 5, 6, 7, 8, 9, 10])"
    by (simp add: streamCompress_def streamLoop.simps chunkStep_def Let_def slice_def
          sliceRange_def copyEncode_def)
  have n: "nat \<lceil>real (length [1, 2, 3, 4, 5, 6, 7, 8, 9, 10 :: byte]) / real_of_int 3\<rceil> = 4"
    by (simp add: ceiling_as_div)
  have s: "compressWithProgress copyEncode constructor [1, 2, 3, 4, 5, 6, 7, 8, 9, 10]
          (noOptions\<lparr>opt_chunkSize := Some 3\<rparr>) None 0 1 =
        Some ([Encode [1, 2, 3] \<lparr>enc_mode = 0, enc_quality = 6, enc_lgwin = 22\<rparr>, Yield,
            Encode [4, 5, 6] \<lparr>enc_mode = 0, enc_quality = 6, enc_lgwin = 22\<rparr>, Yield,
            Encode [7, 8, 9] \<lparr>enc_mode = 0, enc_quality = 6, enc_lgwin = 22\<rparr>, Yield,
            Encode [10] \<lparr>enc_mode = 0, enc_quality = 6, enc_lgwin = 22\<rparr>, Yield],
           Inr [1, 2, 3, 4, 5, 6, 7, 8, 9, 10],
           \<lparr>performanceMetrics =
              \<lparr>compressionTime = 1, decompressionTime = 0, originalSize = 10,
               compressedSize = 10\<rparr>\<rparr>)"
    by (simp add: compressWithProgress_def noOptions_def constructor_def streamCompress_def
          streamLoop.simps chunkStep_def Let_def slice_def sliceRange_def copyEncode_def)
  from chunked_loop_terminates[OF a, of copyEncode "[1, 2, 3, 4, 5, 6, 7, 8, 9, 10]" 6 0 22 None
      "noOptions\<lparr>opt_chunkSize := Some 3\<rparr>" constructor 0 1] b c n s
  show ?thesis by simp
qed

text \<open>
  Claim C4: for a positive chunk size and a non-empty input the ranges the loop slices start at
  0, end at the length of the input, each begins where the one before ends, all but the last
  have length \<open>chunkSize\<close> and the last has a length in \<open>(0, chunkSize]\<close>; when no codec
  call throws, the chunks handed to the codec are the input at these ranges, in order. For
  length 10 and chunk size 3 the ranges are \<open>[0,3), [3,6), [6,9), [9,10)\<close>.
\<close>

theorem chunk_ranges_cover:
  assumes "1 \<le> chunkSize" and "data \<noteq> []"
  shows "(\<exists>rs. chunkRanges (int (length data)) chunkSize 0 = Some rs
           \<and> rs \<noteq> [] \<and> fst (hd rs) = 0 \<and> snd (last rs) = int (length data)
           \<and> (\<forall>k. Suc k < length rs \<longrightarrow>
                  snd (rs ! k) = fst (rs ! Suc k) \<and> snd (rs ! k) - fst (rs ! k) = chunkSize)
           \<and> 0 < snd (last rs) - fst (last rs) \<and> snd (last rs) - fst (last rs) \<le> chunkSize
           \<and> (\<forall>tr y. streamCompress enc data quality mode chunkSize lgwin cb = Some (tr, Inr y) \<longrightarrow>
                  map fst (encodeCalls tr) =
                    map (\<lambda>(s, e). take (nat (e - s)) (drop (nat s) data)) rs))
       \<and> chunkRanges 10 3 0 = Some [(0, 3), (3, 6), (6, 9), (9, 10)]"
proof -
  let ?len = "int (length data)"
  let ?q = "(?len + chunkSize - 1) div chunkSize"
  let ?N = "nat ?q"
  let ?f = "\<lambda>k. (int k * chunkSize, min (int k * chunkSize + chunkSize) ?len)"
  let ?rs = "map ?f [0..<?N]"
  have len1: "1 \<le> ?len" using assms(2) by (cases data) auto
  have rs: "chunkRanges ?len chunkSize 0 = Some ?rs"
    by (rule chunkRanges_closed[OF assms(1)])
  have q1: "1 \<le> ?q"
  proof -
    have "chunkSize div chunkSize \<le> ?q" using len1 assms(1) by (intro zdiv_mono1) auto
    then show ?thesis using assms(1) by simp
  qed
  then have N: "0 < ?N" by simp
  have lrs: "length ?rs = ?N" by simp
  have ne: "?rs \<noteq> []" using N by simp
  have hd0: "fst (hd ?rs) = 0" using N by (simp add: hd_map hd_upt upt_conv_Cons)
  have lastrs: "last ?rs = ?f (?N - 1)"
    using N by (simp add: last_map last_upt)
  have sucN: "int (Suc (?N - 1)) = ?q" using q1 by simp
  have reach: "?len \<le> int (?N - 1) * chunkSize + chunkSize"
    by (rule last_index_reaches[OF assms(1) sucN])
  have below: "int (?N - 1) * chunkSize < ?len"
    using q1 by (intro index_below[OF assms(1)]) simp
  have lastv: "last ?rs = (int (?N - 1) * chunkSize, ?len)"
    using lastrs reach by (simp add: min_def)
  have mid: "snd (?rs ! k) = fst (?rs ! Suc k) \<and> snd (?rs ! k) - fst (?rs ! k) = chunkSize"
    if "Suc k < length ?rs" for k
  proof -
    have k: "Suc k < ?N" "k < ?N" using that by simp_all
    then have "int (Suc k) < ?q" by linarith
    from next_index_below[OF assms(1) this]
    have "int k * chunkSize + chunkSize < ?len" .
    then show ?thesis using k by (simp add: algebra_simps)
  qed
  have link: "map fst (encodeCalls tr) = map (\<lambda>(s, e). take (nat (e - s)) (drop (nat s) data)) ?rs"
    if "streamCompress enc data quality mode chunkSize lgwin cb = Some (tr, Inr y)" for tr y
  proof -
    from streamCompress_calls[OF assms(1), of enc data quality mode lgwin cb] that
    have "encodeCalls tr =
            map (\<lambda>k. (slice data (int k * chunkSize) (int k * chunkSize + chunkSize),
                       \<lparr>enc_mode = mode, enc_quality = quality, enc_lgwin = lgwin\<rparr>))
              [0..<nat \<lceil>real (length data) / real_of_int chunkSize\<rceil>]" by auto
    then have "map fst (encodeCalls tr) =
            map (\<lambda>k. slice data (int k * chunkSize) (int k * chunkSize + chunkSize)) [0..<?N]"
      using ceiling_as_div[OF assms(1), of ?len] by (simp add: comp_def)
    also have "\<dots> = map (\<lambda>(s, e). take (nat (e - s)) (drop (nat s) data)) ?rs"
    proof -
      have "slice data (int k * chunkSize) (int k * chunkSize + chunkSize) =
            take (nat (min (int k * chunkSize + chunkSize) ?len - int k * chunkSize))
              (drop (nat (int k * chunkSize)) data)" if "k < ?N" for k
      proof -
        have "int k < ?q" using that by simp
        from index_below[OF assms(1) this] show ?thesis by (rule slice_chunk[OF assms(1)])
      qed
      then show ?thesis by (simp add: comp_def)
    qed
    finally show ?thesis .
  qed
  have ex: "chunkRanges 10 3 0 = Some [(0, 3), (3, 6), (6, 9), (9, 10)]"
    by (simp add: chunkRanges.simps sliceRange_def)
  have c1: "snd (last ?rs) = ?len" unfolding lastv by simp
  have c2: "0 < snd (last ?rs) - fst (last ?rs)" unfolding lastv using below by simp
  have c3: "snd (last ?rs) - fst (last ?rs) \<le> chunkSize" unfolding lastv using reach by simp
  have c4: "\<forall>k. Suc k < length ?rs \<longrightarrow>
              snd (?rs ! k) = fst (?rs ! Suc k) \<and> snd (?rs ! k) - fst (?rs ! k) = chunkSize"
    using mid by blast
  have c5: "\<forall>tr y. streamCompress enc data quality mode chunkSize lgwin cb = Some (tr, Inr y) \<longrightarrow>
              map fst (encodeCalls tr) =
                map (\<lambda>(s, e). take (nat (e - s)) (drop (nat s) data)) ?rs"
    using link by blast
  have "chunkRanges ?len chunkSize 0 = Some ?rs
           \<and> ?rs \<noteq> [] \<and> fst (hd ?rs) = 0 \<and> snd (last ?rs) = ?len
           \<and> (\<forall>k. Suc k < length ?rs \<longrightarrow>
                  snd (?rs ! k) = fst (?rs ! Suc k) \<and> snd (?rs ! k) - fst (?rs ! k) = chunkSize)
           \<and> 0 < snd (last ?rs) - fst (last ?rs) \<and> snd (last ?rs) - fst (last ?rs) \<le> chunkSize
           \<and> (\<forall>tr y. streamCompress enc data quality mode chunkSize lgwin cb = Some (tr, Inr y) \<longrightarrow>
                  map fst (encodeCalls tr) =
                    map (\<lambda>(s, e). take (nat (e - s)) (drop (nat s) data)) ?rs)"
    using rs ne hd0 c1 c2 c3 c4 c5 by blast
  then show ?thesis using ex by blast
qed

theorem chunk_ranges_cover_witness:
  "chunkRanges (int (length [1, 2, 3, 4, 5, 6, 7, 8, 9, 10 :: byte])) 3 0 =
     Some [(0, 3), (3, 6), (6, 9), (9, 10)]
   \<and> (\<exists>tr. streamCompress copyEncode [1, 2, 3, 4, 5, 6, 7, 8, 9, 10] 6 0 3 22 None =
              Some (tr, Inr [1, 2, 3, 4, 5, 6, 7, 8, 9, 10])
            \<and> map fst (encodeCalls tr) = [[1, 2, 3], [4, 5, 6], [7, 8, 9], [10]])"
proof -
  let ?d = "[1, 2, 3, 4, 5, 6, 7, 8, 9, 10 :: byte]"
  have a: "(1::int) \<le> 3" by simp
  have b: "?d \<noteq> []" by simp
  have r: "chunkRanges (int (length ?d)) 3 0 = Some [(0, 3), (3, 6), (6, 9), (9, 10)]"
    by (simp add: chunkRanges.simps sliceRange_def)
  have c: "streamCompress copyEncode ?d 6 0 3 22 None =
     Some ([Encode [1, 2, 3] \<lparr>enc_mode = 0, enc_quality = 6, enc_lgwin = 22\<rparr>, Yield,
            Encode [4, 5, 6] \<lparr>enc_mode = 0, enc_quality = 6, enc_lgwin = 22\<rparr>, Yield,
            Encode [7, 8, 9] \<lparr>enc_mode = 0, enc_quality = 6, enc_lgwin = 22\<rparr>, Yield,
            Encode [10] \<lparr>enc_mode = 0, enc_quality = 6, enc_lgwin = 22\<rparr>, Yield],
           Inr ?d)"
    by (simp add: streamCompress_def streamLoop.simps chunkStep_def Let_def slice_def
          sliceRange_def copyEncode_def)
  from chunk_ranges_cover[OF a b, of copyEncode 6 0 22 None] obtain rs where
    rs: "chunkRanges (int (length ?d)) 3 0 = Some rs"
    and l: "\<forall>tr y. streamCompress copyEncode ?d 6 0 3 22 None = Some (tr, Inr y) \<longrightarrow>
                  map fst (encodeCalls tr) =
                    map (\<lambda>(s, e). take (nat (e - s)) (drop (nat s) ?d)) rs"
    by blast
  from rs r have "rs = [(0, 3), (3, 6), (6, 9), (9, 10)]" by simp
  with l c have "map fst (encodeCalls
        [Encode [1, 2, 3] \<lparr>enc_mode = 0, enc_quality = 6, enc_lgwin = 22\<rparr>, Yield,
            Encode [4, 5, 6] \<lparr>enc_mode = 0, enc_quality = 6, enc_lgwin = 22\<rparr>, Yield,
            Encode [7, 8, 9] \<lparr>enc_mode = 0, enc_quality = 6, enc_lgwin = 22\<rparr>, Yield,
            Encode [10] \<lparr>enc_mode = 0, enc_quality = 6, enc_lgwin = 22\<rparr>, Yield]) =
        [[1, 2, 3], [4, 5, 6], [7, 8, 9], [10]]" by simp
  with r c show ?thesis by simp
qed



text \<open>
  Claim C6: when the codec throws on some chunk of a chunked compress, the call throws
  \<^verbatim>\<open>Compression failed: \<close> followed by the message of the call that threw (the last
  effect of the run), returns no bytes, and leaves the processor as it was. When that chunk
  is the first one the codec rejects and the callback does not throw, the message is the one
  of that chunk and the codec was called once for each chunk up to it.
\<close>

theorem encode_failure_aborts:
  assumes "1 \<le> chunkSizeOf options" and "chunkSizeOf options < int (length data)"
      and "k < nat \<lceil>real (length data) / real_of_int (chunkSizeOf options)\<rceil>"
      and "enc (slice data (int k * chunkSizeOf options)
                 (int k * chunkSizeOf options + chunkSizeOf options))
             (brotliOptionsOf options) = Inl e"
  shows "\<exists>tr cause.
           compressWithProgress enc this data options cb startTime endTime =
             Some (tr, Inl (''Compression failed: '' @ cause), this)
           \<and> tr \<noteq> []
           \<and> ((\<exists>c. last tr = Encode c (brotliOptionsOf options) \<and>
                    enc c (brotliOptionsOf options) = Inl cause)
               \<or> (\<exists>f p n. cb = Some f \<and> last tr = Progress p n \<and> f p n = Some cause))
           \<and> ((\<forall>j<k. \<exists>c. enc (slice data (int j * chunkSizeOf options)
                                   (int j * chunkSizeOf options + chunkSizeOf options))
                               (brotliOptionsOf options) = Inr c)
                \<and> (\<forall>f p n. cb = Some f \<longrightarrow> f p n = None)
               \<longrightarrow> cause = e \<and> length (encodeCalls tr) = Suc k)"
proof -
  let ?cs = "chunkSizeOf options" and ?opts = "brotliOptionsOf options"
  let ?N = "nat \<lceil>real (length data) / real_of_int ?cs\<rceil>"
  let ?step = "chunkStep enc cb data ?opts ?cs"
  let ?g = "\<lambda>k. int k * ?cs"
  let ?is = "loopIndices (int (length data)) ?cs 0"
  have c: "?cs \<noteq> 0" using assms(1) by simp
  have isN: "?is = map ?g [0..<?N]" by (rule loopIndices_ceiling[OF assms(1)])
  have kfail: "?step (?g k) = ([Encode (slice data (?g k) (?g k + ?cs)) ?opts], Inl e)"
    using assms(4) by (rule chunkStep_enc_fails[of enc data "?g k" ?cs ?opts e cb])
  have kin: "?g k \<in> set ?is" using assms(3) by (auto simp: isN)
  have notok: "\<not> (\<forall>i\<in>set ?is. \<exists>c. snd (?step i) = Inr c)"
  proof
    assume "\<forall>i\<in>set ?is. \<exists>c. snd (?step i) = Inr c"
    with kin obtain c where "snd (?step (?g k)) = Inr c" by blast
    with kfail show False by simp
  qed
  from streamLoop_result[OF assms(1), of data enc cb ?opts] notok
  obtain as j bs e' where sp: "?is = as @ j # bs"
    and asok: "\<forall>i\<in>set as. \<exists>c. snd (?step i) = Inr c"
    and jfail: "snd (?step j) = Inl e'"
    and run: "streamLoop enc cb data ?opts ?cs 0 [] [] =
              Some (concat (map (\<lambda>i. fst (?step i)) (as @ [j])), Inl e')"
    by blast
  let ?tr = "concat (map (\<lambda>i. fst (?step i)) (as @ [j]))"
  have res: "compressWithProgress enc this data options cb startTime endTime =
             Some (?tr, Inl (''Compression failed: '' @ e'), this)"
    using run by (simp add: compressWithProgress_chunked[OF c assms(2)])
  from chunkStep_Inl[OF jfail] have ne: "fst (?step j) \<noteq> []"
    and cause: "(\<exists>c. last (fst (?step j)) = Encode c ?opts \<and> enc c ?opts = Inl e')
          \<or> (\<exists>f p n. cb = Some f \<and> last (fst (?step j)) = Progress p n \<and> f p n = Some e')"
    by blast+
  have trne: "?tr \<noteq> []" using ne by simp
  have lasttr: "last ?tr = last (fst (?step j))" using ne by simp
  have first: "e' = e \<and> length (encodeCalls ?tr) = Suc k"
    if ok: "\<forall>j<k. \<exists>c. enc (slice data (?g j) (?g j + ?cs)) ?opts = Inr c"
      and quiet: "\<forall>f p n. cb = Some f \<longrightarrow> f p n = None"
  proof -
    from upt_map_split[of ?g ?N as j bs] sp isN
    have as: "as = map ?g [0..<length as]" and j: "j = ?g (length as)" and lt: "length as < ?N"
      by simp_all
    have "\<not> length as < k"
    proof
      assume "length as < k"
      with ok obtain c where "enc (slice data (?g (length as)) (?g (length as) + ?cs)) ?opts = Inr c"
        by blast
      from chunkStep_ok[of enc data "?g (length as)" ?cs ?opts c cb, OF this quiet] jfail j
      show False by simp
    qed
    moreover have "\<not> k < length as"
    proof
      assume "k < length as"
      then have "?g k \<in> set (map ?g [0..<length as])" by auto
      then have "?g k \<in> set as" using as by simp
      with asok obtain c where "snd (?step (?g k)) = Inr c" by blast
      with kfail show False by simp
    qed
    ultimately have m: "length as = k" by simp
    then have "e' = e" using jfail j kfail by simp
    moreover have "length (encodeCalls ?tr) = length (as @ [j])"
      by (subst encodeCalls_concat) simp
    ultimately show ?thesis using m by simp
  qed
  from res trne cause first show ?thesis unfolding lasttr[symmetric] by blast
qed

theorem encode_failure_aborts_witness:
  "compressWithProgress (rejecting [5, 6])
     \<lparr>performanceMetrics =
        \<lparr>compressionTime = 7, decompressionTime = 0, originalSize = 4, compressedSize = 2\<rparr>\<rparr>
     [1, 2, 3, 4, 5, 6, 7, 8, 9, 10] (noOptions\<lparr>opt_chunkSize := Some 2\<rparr>) None 0 1 =
   Some ([Encode [1, 2] \<lparr>enc_mode = 0, enc_quality = 6, enc_lgwin = 22\<rparr>, Yield,
          Encode [3, 4] \<lparr>enc_mode = 0, enc_quality = 6, enc_lgwin = 22\<rparr>, Yield,
          Encode [5, 6] \<lparr>enc_mode = 0, enc_quality = 6, enc_lgwin = 22\<rparr>],
         Inl ''Compression failed: rejected'',
         \<lparr>performanceMetrics =
            \<lparr>compressionTime = 7, decompressionTime = 0, originalSize = 4,
             compressedSize = 2\<rparr>\<rparr>)
   \<and> (\<exists>tr cause.
        compressWithProgress (rejecting [5, 6])
          \<lparr>performanceMetrics =
             \<lparr>compressionTime = 7, decompressionTime = 0, originalSize = 4,
              compressedSize = 2\<rparr>\<rparr>
          [1, 2, 3, 4, 5, 6, 7, 8, 9, 10] (noOptions\<lparr>opt_chunkSize := Some 2\<rparr>) None 0 1 =
        Some (tr, Inl (''Compression failed: '' @ cause),
              \<lparr>performanceMetrics =
                 \<lparr>compressionTime = 7, decompressionTime = 0, originalSize = 4,
                  compressedSize = 2\<rparr>\<rparr>)
        \<and> cause = ''rejected'' \<and> length (encodeCalls tr) = 3)"
proof -
  let ?d = "[1, 2, 3, 4, 5, 6, 7, 8, 9, 10 :: byte]"
  let ?o = "noOptions\<lparr>opt_chunkSize := Some 2\<rparr>"
  let ?p = "\<lparr>performanceMetrics =
        \<lparr>compressionTime = 7, decompressionTime = 0, originalSize = 4, compressedSize = 2\<rparr>\<rparr>"
  have a: "1 \<le> chunkSizeOf ?o" by (simp add: chunkSizeOf_def)
  have b: "chunkSizeOf ?o < int (length ?d)" by (simp add: chunkSizeOf_def)
  have k: "2 < nat \<lceil>real (length ?d) / real_of_int (chunkSizeOf ?o)\<rceil>"
    by (simp add: chunkSizeOf_def ceiling_as_div)
  have f: "rejecting [5, 6] (slice ?d (int 2 * chunkSizeOf ?o)
                 (int 2 * chunkSizeOf ?o + chunkSizeOf ?o)) (brotliOptionsOf ?o) = Inl ''rejected''"
    by (simp add: rejecting_def chunkSizeOf_def slice_def sliceRange_def)
  have ok: "\<forall>j<2. \<exists>c. rejecting [5, 6] (slice ?d (int j * chunkSizeOf ?o)
                 (int j * chunkSizeOf ?o + chunkSizeOf ?o)) (brotliOptionsOf ?o) = Inr c"
  proof (intro allI impI)
    fix j :: nat
    assume "j < 2"
    then have "j = 0 \<or> j = 1" by auto
    then show "\<exists>c. rejecting [5, 6] (slice ?d (int j * chunkSizeOf ?o)
                 (int j * chunkSizeOf ?o + chunkSizeOf ?o)) (brotliOptionsOf ?o) = Inr c"
      by (auto simp: rejecting_def chunkSizeOf_def slice_def sliceRange_def)
  qed
  have c: "compressWithProgress (rejecting [5, 6]) ?p ?d ?o None 0 1 =
   Some ([Encode [1, 2] \<lparr>enc_mode = 0, enc_quality = 6, enc_lgwin = 22\<rparr>, Yield,
          Encode [3, 4] \<lparr>enc_mode = 0, enc_quality = 6, enc_lgwin = 22\<rparr>, Yield,
          Encode [5, 6] \<lparr>enc_mode = 0, enc_quality = 6, enc_lgwin = 22\<rparr>],
         Inl ''Compression failed: rejected'', ?p)"
    by (simp add: compressWithProgress_def noOptions_def streamCompress_def
          streamLoop.simps chunkStep_def Let_def slice_def sliceRange_def rejecting_def)
  from encode_failure_aborts[where enc = "rejecting [5, 6]" and options = ?o and data = ?d
      and k = 2 and e = "''rejected''" and this = ?p and cb = None and startTime = 0
      and endTime = 1, OF a b k f] ok
  obtain tr cause where
    "compressWithProgress (rejecting [5, 6]) ?p ?d ?o None 0 1 =
       Some (tr, Inl (''Compression failed: '' @ cause), ?p)"
    "cause = ''rejected''" "length (encodeCalls tr) = Suc 2"
    by auto
  with c show ?thesis by simp
qed

end
